theory Spec2Isabelle
  imports Complex_Main
begin

section \<open>Data model (src/lib/types.ts)\<close>

text \<open>
  A JavaScript \<open>number\<close> is modelled as a real: the analytics are read as exact
  arithmetic, without the rounding of IEEE doubles and without NaN. A field of type
  \<open>number | null\<close> is an option. The field \<open>extras\<close> of \<open>TrackRecord\<close> is read by none
  of the functions below and is left out.
\<close>

datatype Zone = zone1 | zone2 | zone3 | zone4 | zone5

record TrackRecord =
  timestamp :: string
  elapsedTime :: real
  heartRate :: "real option"
  distance :: "real option"
  altitude :: "real option"
  speed :: "real option"
  temperature :: "real option"
  positionLat :: "real option"
  positionLong :: "real option"
  zone :: Zone

text \<open>
  The interface \<open>HillPeak\<close> of HeartRateRecoveryTable.tsx. Its fields \<open>index\<close>,
  \<open>elapsedTime\<close>, \<open>altitude\<close> and \<open>distance\<close> carry the prefix \<open>peak_\<close> here, since a
  record field is a constant of the theory and \<open>TrackRecord\<close> has these names already.
\<close>

record HillPeak =
  peak_index :: nat
  peak_elapsedTime :: real
  peak_altitude :: real
  peakHR :: real
  hr1min :: "real option"
  hr2min :: "real option"
  hr5min :: "real option"
  recovery1min :: "real option"
  recovery2min :: "real option"
  recovery5min :: "real option"
  peak_distance :: real

section \<open>Hill peaks and heart-rate recovery (HeartRateRecoveryTable.tsx)\<close>

text \<open>\<open>records.filter((r) => r.altitude !== null && r.heartRate !== null)\<close>\<close>

definition validRecords :: "TrackRecord list \<Rightarrow> TrackRecord list" where
  "validRecords records = filter (\<lambda>r. altitude r \<noteq> None \<and> heartRate r \<noteq> None) records"

text \<open>
  The non-null assertion \<open>validRecords[i].altitude!\<close>: on the valid subset the field is
  never null.
\<close>

definition alt_at :: "TrackRecord list \<Rightarrow> nat \<Rightarrow> real" where
  "alt_at vr i = the (altitude (vr ! i))"

definition time_at :: "TrackRecord list \<Rightarrow> nat \<Rightarrow> real" where
  "time_at vr i = elapsedTime (vr ! i)"

text \<open>
  The two loops of \<open>findRecordsInTimeWindow\<close>. The backward loop runs \<open>i\<close> from
  \<open>centerIdx - 1\<close> down to \<open>0\<close>; \<open>look_backwards vr centerTime w k\<close> is that loop with
  \<open>k\<close> indices left, so that its current index is \<open>k - 1\<close>. Each loop stops at the first
  sample further than \<open>windowSeconds\<close> from the centre.
\<close>

fun look_backwards :: "TrackRecord list \<Rightarrow> real \<Rightarrow> real \<Rightarrow> nat \<Rightarrow> (nat \<times> real) list" where
  "look_backwards vr centerTime windowSeconds 0 = []"
| "look_backwards vr centerTime windowSeconds (Suc i) =
     (if centerTime - time_at vr i > windowSeconds then []
      else (i, alt_at vr i) # look_backwards vr centerTime windowSeconds i)"

function look_forwards :: "TrackRecord list \<Rightarrow> real \<Rightarrow> real \<Rightarrow> nat \<Rightarrow> (nat \<times> real) list" where
  "look_forwards vr centerTime windowSeconds i =
     (if i < length vr then
        (if time_at vr i - centerTime > windowSeconds then []
         else (i, alt_at vr i) # look_forwards vr centerTime windowSeconds (Suc i))
      else [])"
  by pat_completeness auto
termination
  by (relation "measure (\<lambda>(vr, centerTime, windowSeconds, i). length vr - i)") auto

declare look_forwards.simps [simp del]

definition findRecordsInTimeWindow :: "TrackRecord list \<Rightarrow> nat \<Rightarrow> real \<Rightarrow> (nat \<times> real) list" where
  "findRecordsInTimeWindow vr centerIdx windowSeconds =
     (let centerTime = time_at vr centerIdx
      in look_backwards vr centerTime windowSeconds centerIdx
         @ look_forwards vr centerTime windowSeconds (centerIdx + 1))"

definition peakWindowSeconds :: real where "peakWindowSeconds = 60"
definition minProminence :: real where "minProminence = 15"
definition minTimeBetweenPeaks :: real where "minTimeBetweenPeaks = 120"
definition prominenceWindowSeconds :: real where "prominenceWindowSeconds = 300"

text \<open>\<open>neighbors.every((n) => currentAlt >= n.altitude)\<close>\<close>

definition isLocalMax :: "TrackRecord list \<Rightarrow> nat \<Rightarrow> bool" where
  "isLocalMax vr i =
     list_all (\<lambda>n. alt_at vr i \<ge> snd n) (findRecordsInTimeWindow vr i peakWindowSeconds)"

text \<open>
  The prominence loop: \<open>minAfterLoop vr currentTime w minAfter j\<close> is the loop at index
  \<open>j\<close> with the running minimum \<open>minAfter\<close>.
\<close>

function minAfterLoop :: "TrackRecord list \<Rightarrow> real \<Rightarrow> real \<Rightarrow> real \<Rightarrow> nat \<Rightarrow> real" where
  "minAfterLoop vr currentTime w minAfter j =
     (if j < length vr then
        (if time_at vr j - currentTime > w then minAfter
         else minAfterLoop vr currentTime w
                (if alt_at vr j < minAfter then alt_at vr j else minAfter) (Suc j))
      else minAfter)"
  by pat_completeness auto
termination
  by (relation "measure (\<lambda>(vr, currentTime, w, minAfter, j). length vr - j)") auto

declare minAfterLoop.simps [simp del]

definition prominence :: "TrackRecord list \<Rightarrow> nat \<Rightarrow> real" where
  "prominence vr i =
     alt_at vr i - minAfterLoop vr (time_at vr i) prominenceWindowSeconds (alt_at vr i) (i + 1)"

text \<open>
  One iteration of the scan over the valid subset, on the list \<open>peaks\<close> of the indices
  accepted so far. Each \<open>continue\<close> of the source leaves \<open>peaks\<close> as it is;
  \<open>peaks[peaks.length - 1]\<close> is \<open>undefined\<close> on the empty list.
\<close>

definition peakStep :: "TrackRecord list \<Rightarrow> nat \<Rightarrow> nat list \<Rightarrow> nat list" where
  "peakStep vr i peaks =
     (if \<not> isLocalMax vr i then peaks
      else if prominence vr i < minProminence then peaks
      else if peaks \<noteq> [] \<and> time_at vr i - time_at vr (last peaks) < minTimeBetweenPeaks
        then peaks
      else peaks @ [i])"

definition detectPeaks :: "TrackRecord list \<Rightarrow> nat list" where
  "detectPeaks vr = fold (peakStep vr) [0..<length vr] []"

text \<open>
  The search loop of \<open>findHRAtOffset\<close>. The pair of variables \<open>closest\<close> and
  \<open>closestDiff\<close> is one option: \<open>None\<close> is the initial \<open>closest = null\<close>,
  \<open>closestDiff = Infinity\<close>, below which every difference lies.
\<close>

function closestLoop ::
  "TrackRecord list \<Rightarrow> real \<Rightarrow> (TrackRecord \<times> real) option \<Rightarrow> nat \<Rightarrow> (TrackRecord \<times> real) option"
where
  "closestLoop vr targetTime st i =
     (if i < length vr then
        (let r = vr ! i;
             diff = \<bar>elapsedTime r - targetTime\<bar>;
             st' = (case st of
                      None \<Rightarrow> Some (r, diff)
                    | Some (closest, closestDiff) \<Rightarrow>
                        if diff < closestDiff then Some (r, diff) else st)
         in if elapsedTime r > targetTime \<and> diff > snd (the st') then st'
            else closestLoop vr targetTime st' (Suc i))
      else st)"
  by pat_completeness auto
termination
  by (relation "measure (\<lambda>(vr, targetTime, st, i). length vr - i)") auto

declare closestLoop.simps [simp del]

definition findHRAtOffset :: "TrackRecord list \<Rightarrow> nat \<Rightarrow> real \<Rightarrow> real option" where
  "findHRAtOffset vr peakIdx offsetSeconds =
     (case closestLoop vr (time_at vr peakIdx + offsetSeconds) None peakIdx of
        None \<Rightarrow> None
      | Some (closest, closestDiff) \<Rightarrow>
          if closestDiff \<le> 15 \<and> heartRate closest \<noteq> None then heartRate closest else None)"

text \<open>The body of \<open>peaks.map((peakIdx) => ...)\<close>.\<close>

definition hillPeakOf :: "TrackRecord list \<Rightarrow> nat \<Rightarrow> HillPeak" where
  "hillPeakOf vr peakIdx =
     (let peakRecord = vr ! peakIdx;
          peakTime = elapsedTime peakRecord;
          h1 = findHRAtOffset vr peakIdx 60;
          h2 = findHRAtOffset vr peakIdx 120;
          h5 = findHRAtOffset vr peakIdx 300;
          hr = the (heartRate peakRecord)
      in \<lparr> peak_index = peakIdx,
           peak_elapsedTime = peakTime,
           peak_altitude = the (altitude peakRecord),
           peakHR = hr,
           hr1min = h1,
           hr2min = h2,
           hr5min = h5,
           recovery1min = (case h1 of None \<Rightarrow> None | Some h \<Rightarrow> Some (hr - h)),
           recovery2min = (case h2 of None \<Rightarrow> None | Some h \<Rightarrow> Some (hr - h)),
           recovery5min = (case h5 of None \<Rightarrow> None | Some h \<Rightarrow> Some (hr - h)),
           peak_distance = (case distance peakRecord of None \<Rightarrow> 0 | Some d \<Rightarrow> d) / 1000 \<rparr>)"

definition hillPeakData :: "TrackRecord list \<Rightarrow> HillPeak list" where
  "hillPeakData vr = map (hillPeakOf vr) (detectPeaks vr)"

definition hasRecovery :: "HillPeak \<Rightarrow> bool" where
  "hasRecovery p \<longleftrightarrow> recovery1min p \<noteq> None \<or> recovery2min p \<noteq> None \<or> recovery5min p \<noteq> None"

definition hillPeaks :: "TrackRecord list \<Rightarrow> HillPeak list" where
  "hillPeaks records =
     (let vr = validRecords records
      in if length vr < 20 then [] else filter hasRecovery (hillPeakData vr))"

section \<open>Chart series (ElevationAnalysisChart.tsx, PaceHeartRateChart, HeartRateZoneChartV2.tsx)\<close>

datatype UnitSystem = metric | imperial

text \<open>
  \<open>xs.filter((_, i) => P i)\<close>: the elements whose index passes the test, in order.
\<close>

definition filterIndex :: "(nat \<Rightarrow> bool) \<Rightarrow> 'a list \<Rightarrow> 'a list" where
  "filterIndex P xs = map (\<lambda>i. xs ! i) (filter P [0..<length xs])"

text \<open>
  \<open>i % step === 0\<close>. JavaScript's \<open>i % 0\<close> is NaN and the test is false; HOL's
  \<open>i mod 0\<close> is \<open>i\<close>, so the case is written out.
\<close>

definition isMultipleOf :: "nat \<Rightarrow> nat \<Rightarrow> bool" where
  "isMultipleOf step i \<longleftrightarrow> step \<noteq> 0 \<and> i mod step = 0"

text \<open>
  Step 2 of both charts: \<open>step = Math.ceil(points.length / 300)\<close> and
  \<open>points.filter((_, i) => i % step === 0)\<close>.
\<close>

definition chartStep :: "'a list \<Rightarrow> nat" where
  "chartStep points = nat \<lceil>real (length points) / 300\<rceil>"

definition chartSampled :: "'a list \<Rightarrow> 'a list" where
  "chartSampled points = filterIndex (isMultipleOf (chartStep points)) points"

definition windowSize :: nat where "windowSize = 5"

text \<open>\<open>Math.max(0, i - windowSize)\<close> and \<open>Math.min(arr.length - 1, i + windowSize)\<close>\<close>

definition startIdx :: "nat \<Rightarrow> nat" where
  "startIdx i = nat (max 0 (int i - int windowSize))"

definition endIdx :: "'a list \<Rightarrow> nat \<Rightarrow> nat" where
  "endIdx arr i = nat (min (int (length arr) - 1) (int i + int windowSize))"

subsection \<open>Vertical speed of the elevation chart\<close>

record ElevationPoint =
  ep_distance :: real
  ep_altitude :: real
  vam :: real

text \<open>
  The filter of the elevation chart also tests \<open>r.elapsedTime !== null\<close>, which holds of
  every record: the field is a \<open>number\<close>.
\<close>

definition elevationPoints :: "TrackRecord list \<Rightarrow> TrackRecord list" where
  "elevationPoints records = filter (\<lambda>r. distance r \<noteq> None \<and> altitude r \<noteq> None) records"

definition elevationConversion :: "UnitSystem \<Rightarrow> real" where
  "elevationConversion units = (if units = imperial then 3.28084 else 1)"

definition distanceConversion :: "UnitSystem \<Rightarrow> real" where
  "distanceConversion units = (if units = imperial then 0.000621371 else 0.001)"

definition vamLimit :: "UnitSystem \<Rightarrow> real" where
  "vamLimit units = (if units = imperial then 6000 else 2000)"

text \<open>The callback of \<open>sampled.map((p, i, arr) => ...)\<close> in ElevationAnalysisChart.\<close>

definition vamAt :: "UnitSystem \<Rightarrow> TrackRecord list \<Rightarrow> nat \<Rightarrow> real" where
  "vamAt units arr i =
     (let startP = arr ! startIdx i;
          endP = arr ! endIdx arr i;
          timeDiff = (elapsedTime endP - elapsedTime startP) / 3600;
          altDiffMeters = the (altitude endP) - the (altitude startP);
          vam0 = (if timeDiff > 0.001
                  then (altDiffMeters * elevationConversion units) / timeDiff else 0);
          vam1 = (if vam0 > vamLimit units then vamLimit units else vam0);
          vam2 = (if vam1 < - vamLimit units then - vamLimit units else vam1)
      in vam2)"

definition elevationPointAt :: "UnitSystem \<Rightarrow> TrackRecord list \<Rightarrow> nat \<Rightarrow> ElevationPoint" where
  "elevationPointAt units arr i =
     \<lparr> ep_distance = (case distance (arr ! i) of None \<Rightarrow> 0 | Some d \<Rightarrow> d)
                         * distanceConversion units,
       ep_altitude = (case altitude (arr ! i) of None \<Rightarrow> 0 | Some a \<Rightarrow> a)
                         * elevationConversion units,
       vam = vamAt units arr i \<rparr>"

definition elevationData :: "UnitSystem \<Rightarrow> TrackRecord list \<Rightarrow> ElevationPoint list" where
  "elevationData units records =
     (let sampled = chartSampled (elevationPoints records)
      in map (elevationPointAt units sampled) [0..<length sampled])"

subsection \<open>Smoothed pace of the pace chart\<close>

record PacePoint =
  pp_distance :: real
  pp_heartRate :: "real option"
  pace :: real
  rawSpeed :: real

definition pacePoints :: "TrackRecord list \<Rightarrow> TrackRecord list" where
  "pacePoints records =
     filter (\<lambda>r. distance r \<noteq> None \<and> heartRate r \<noteq> None \<and> speed r \<noteq> None) records"

definition paceMeters :: "UnitSystem \<Rightarrow> real" where
  "paceMeters units = (if units = imperial then 1609.34 else 1000)"

text \<open>
  The condition \<open>if (arr[j].speed)\<close>: JavaScript takes \<open>null\<close> and \<open>0\<close> for false.
\<close>

definition truthy :: "real option \<Rightarrow> bool" where
  "truthy v = (case v of None \<Rightarrow> False | Some x \<Rightarrow> x \<noteq> 0)"

text \<open>
  The summing loop over \<open>j\<close> from \<open>startIdx\<close> to \<open>endIdx\<close>, on the pair
  \<open>(sumSpeed, count)\<close>.
\<close>

definition sumStep :: "TrackRecord list \<Rightarrow> nat \<Rightarrow> real \<times> nat \<Rightarrow> real \<times> nat" where
  "sumStep arr j acc =
     (case acc of (sumSpeed, count) \<Rightarrow>
        if truthy (speed (arr ! j)) then (sumSpeed + the (speed (arr ! j)), count + 1)
        else (sumSpeed, count))"

definition sumWindow :: "TrackRecord list \<Rightarrow> nat \<Rightarrow> real \<times> nat" where
  "sumWindow arr i = fold (sumStep arr) [startIdx i..<endIdx arr i + 1] (0, 0)"

definition avgSpeed :: "TrackRecord list \<Rightarrow> nat \<Rightarrow> real" where
  "avgSpeed arr i =
     (case sumWindow arr i of (sumSpeed, count) \<Rightarrow>
        if count > 0 then sumSpeed / real count else 0)"

definition paceAt :: "UnitSystem \<Rightarrow> TrackRecord list \<Rightarrow> nat \<Rightarrow> real" where
  "paceAt units arr i =
     (let pace0 = (if avgSpeed arr i > 0.1 then (paceMeters units / avgSpeed arr i) / 60 else 0)
      in if pace0 > 20 then 20 else pace0)"

definition pacePointAt :: "UnitSystem \<Rightarrow> TrackRecord list \<Rightarrow> nat \<Rightarrow> PacePoint" where
  "pacePointAt units arr i =
     \<lparr> pp_distance = (case distance (arr ! i) of None \<Rightarrow> 0 | Some d \<Rightarrow> d)
                         * distanceConversion units,
       pp_heartRate = heartRate (arr ! i),
       pace = paceAt units arr i,
       rawSpeed = avgSpeed arr i \<rparr>"

definition paceData :: "UnitSystem \<Rightarrow> TrackRecord list \<Rightarrow> PacePoint list" where
  "paceData units records =
     (let sampled = chartSampled (pacePoints records)
      in map (pacePointAt units sampled) [0..<length sampled])"

subsection \<open>The function \<open>downsample\<close> of the zone chart\<close>

text \<open>The interface \<open>ChartPoint\<close>, its fields prefixed with \<open>cp_\<close>.\<close>

record ChartPoint =
  cp_distance :: real
  cp_altitude :: real
  cp_heartRate :: "real option"
  cp_zone :: Zone
  cp_temperature :: "real option"
  cp_elapsedTime :: real
  cp_timestamp :: string

definition chartPointOf :: "TrackRecord \<Rightarrow> ChartPoint" where
  "chartPointOf r =
     \<lparr> cp_distance = (case distance r of None \<Rightarrow> 0 | Some d \<Rightarrow> d) / 1000,
       cp_altitude = (case altitude r of None \<Rightarrow> 0 | Some a \<Rightarrow> a),
       cp_heartRate = heartRate r,
       cp_zone = zone r,
       cp_temperature = temperature r,
       cp_elapsedTime = elapsedTime r,
       cp_timestamp = timestamp r \<rparr>"

text \<open>
  \<open>sampleRate = Math.max(1, Math.floor(records.length / maxPoints))\<close>, with \<open>maxPoints\<close>
  a natural number. For \<open>maxPoints = 0\<close> the quotient is \<open>Infinity\<close>, \<open>i % Infinity\<close> is
  \<open>i\<close>, and only index \<open>0\<close> passes.
\<close>

definition sampleRate :: "nat \<Rightarrow> nat \<Rightarrow> nat" where
  "sampleRate n maxPoints = max 1 (n div maxPoints)"

definition downsample :: "TrackRecord list \<Rightarrow> nat \<Rightarrow> ChartPoint list" where
  "downsample records maxPoints =
     map chartPointOf
       (if maxPoints = 0 then take 1 records
        else filterIndex (\<lambda>i. i mod sampleRate (length records) maxPoints = 0) records)"

section \<open>Properties named by the specification\<close>

text \<open>
  The ordering invariant of a sample series: \<open>elapsedTime\<close> never decreases.
\<close>

definition timeOrdered :: "TrackRecord list \<Rightarrow> bool" where
  "timeOrdered records \<longleftrightarrow> sorted (map elapsedTime records)"

text \<open>
  The altitudes of the samples from index \<open>i\<close> on that lie at most \<open>w\<close> seconds after
  sample \<open>i\<close>, the sample \<open>i\<close> itself among them.
\<close>

definition altitudesWithin :: "TrackRecord list \<Rightarrow> nat \<Rightarrow> real \<Rightarrow> real set" where
  "altitudesWithin vr i w =
     {alt_at vr j | j. i \<le> j \<and> j < length vr \<and> time_at vr j - time_at vr i \<le> w}"

text \<open>
  The altitudes that the prominence loop can meet from index \<open>j\<close> on: those of the
  samples at most \<open>w\<close> seconds after the time \<open>ct\<close>.
\<close>

definition afterWithin :: "TrackRecord list \<Rightarrow> real \<Rightarrow> real \<Rightarrow> nat \<Rightarrow> real set" where
  "afterWithin vr ct w j = {alt_at vr k | k. j \<le> k \<and> k < length vr \<and> time_at vr k - ct \<le> w}"

text \<open>
  Index \<open>j\<close> is the first sample, from index \<open>p\<close> on, whose time is closest to
  \<open>target\<close>.
\<close>

definition closestFrom :: "TrackRecord list \<Rightarrow> nat \<Rightarrow> real \<Rightarrow> nat \<Rightarrow> bool" where
  "closestFrom vr p target j \<longleftrightarrow>
     p \<le> j \<and> j < length vr
     \<and> (\<forall>k. p \<le> k \<and> k < length vr \<longrightarrow>
            \<bar>time_at vr j - target\<bar> \<le> \<bar>time_at vr k - target\<bar>)
     \<and> (\<forall>k. p \<le> k \<and> k < j \<longrightarrow> \<bar>time_at vr j - target\<bar> < \<bar>time_at vr k - target\<bar>)"

text \<open>
  The pace estimator as the specification words it: the speeds that are present in the
  window around \<open>i\<close>, a zero among them, and their arithmetic mean.
\<close>

definition presentSpeeds :: "TrackRecord list \<Rightarrow> nat \<Rightarrow> real list" where
  "presentSpeeds arr i =
     map (\<lambda>j. the (speed (arr ! j)))
       (filter (\<lambda>j. speed (arr ! j) \<noteq> None) [startIdx i..<endIdx arr i + 1])"

definition meanPresentSpeed :: "TrackRecord list \<Rightarrow> nat \<Rightarrow> real" where
  "meanPresentSpeed arr i =
     (if presentSpeeds arr i = [] then 0
      else sum_list (presentSpeeds arr i) / real (length (presentSpeeds arr i)))"

section \<open>Example series\<close>

text \<open>A sample with the three fields the analysis reads, for concrete runs.\<close>

definition sample :: "real \<Rightarrow> real option \<Rightarrow> real option \<Rightarrow> TrackRecord" where
  "sample t a h =
     \<lparr> timestamp = [], elapsedTime = t, heartRate = h, distance = Some 0, altitude = a,
       speed = None, temperature = None, positionLat = None, positionLong = None,
       zone = zone1 \<rparr>"

text \<open>
  Two hills sampled every 30 seconds, the heart rate following the altitude. The first
  summit is sample 8; the second is sample 22, one sample before the end.
\<close>

definition hill_altitudes :: "real list" where
  "hill_altitudes = [0, 10, 20, 30, 40, 50, 60, 70, 80, 70, 60, 50, 40, 30, 20, 10,
                     0, 10, 20, 30, 40, 50, 60, 40]"

definition hill :: "TrackRecord list" where
  "hill = map (\<lambda>(k, a). sample (30 * real k) (Some a) (Some (100 + a)))
              (enumerate 0 hill_altitudes)"

text \<open>A flat trace of 24 samples.\<close>

definition flat :: "TrackRecord list" where
  "flat = map (\<lambda>k. sample (30 * real k) (Some 250) (Some 120)) [0..<24]"

text \<open>A moving sample with a speed, for the chart series.\<close>

definition moving :: "real \<Rightarrow> real \<Rightarrow> real \<Rightarrow> TrackRecord" where
  "moving t a v = (sample t (Some a) (Some 120)) \<lparr> speed := Some v \<rparr>"

text \<open>Twelve samples of a steady climb, 10 seconds and one metre apart.\<close>

definition steady :: "TrackRecord list" where
  "steady = map (\<lambda>k. moving (10 * real k) (100 + real k) 1) [0..<12]"

text \<open>A stop followed by a step at 2 m/s.\<close>

definition stopAndGo :: "TrackRecord list" where
  "stopAndGo = [moving 0 100 0, moving 1 100 2]"

text \<open>A walk of 999 samples, one per second.\<close>

definition longWalk :: "TrackRecord list" where
  "longWalk = map (\<lambda>k. moving (real k) 100 1) [0..<999]"

section \<open>Facts about the example series\<close>

lemma validRecords_hill: "validRecords hill = hill"
  by code_simp

lemma timeOrdered_hill: "timeOrdered hill"
  by code_simp

lemma length_hill: "length hill = 24"
  by code_simp

section \<open>The local-maximum test\<close>

lemma time_at_mono:
  "sorted (map elapsedTime vr) \<Longrightarrow> i \<le> j \<Longrightarrow> j < length vr \<Longrightarrow> time_at vr i \<le> time_at vr j"
  using sorted_nth_mono [of "map elapsedTime vr" i j] by (simp add: time_at_def)

lemma sorted_validRecords:
  "timeOrdered records \<Longrightarrow> sorted (map elapsedTime (validRecords records))"
  unfolding validRecords_def timeOrdered_def by (rule sorted_filter)

lemma set_look_backwards:
  assumes "sorted (map elapsedTime vr)" and "k \<le> length vr"
  shows "set (look_backwards vr ct w k) = {(j, alt_at vr j) | j. j < k \<and> ct - time_at vr j \<le> w}"
  using assms(2)
proof (induction k)
  case 0
  then show ?case by simp
next
  case (Suc i)
  show ?case
  proof (cases "ct - time_at vr i > w")
    case True
    have "ct - time_at vr j > w" if "j < Suc i" for j
    proof -
      have "time_at vr j \<le> time_at vr i"
        using that Suc.prems by (intro time_at_mono [OF assms(1)]) auto
      with True show ?thesis by linarith
    qed
    with True show ?thesis by (auto simp: not_le [symmetric])
  next
    case False
    with Suc show ?thesis by (auto simp: less_Suc_eq)
  qed
qed

lemma set_look_forwards:
  "sorted (map elapsedTime vr) \<Longrightarrow>
   set (look_forwards vr ct w i) =
     {(j, alt_at vr j) | j. i \<le> j \<and> j < length vr \<and> time_at vr j - ct \<le> w}"
proof (induction vr ct w i rule: look_forwards.induct)
  case (1 vr ct w i)
  show ?case
  proof (cases "i < length vr")
    case False
    then show ?thesis by (subst look_forwards.simps) auto
  next
    case inb: True
    show ?thesis
    proof (cases "time_at vr i - ct > w")
      case True
      have "time_at vr j - ct > w" if "i \<le> j" "j < length vr" for j
        using time_at_mono [OF "1.prems" that] True by linarith
      then have "{(j, alt_at vr j) | j. i \<le> j \<and> j < length vr \<and> time_at vr j - ct \<le> w} = {}"
        by (auto simp: not_le [symmetric])
      with inb True show ?thesis by (subst look_forwards.simps) simp
    next
      case False
      have "set (look_forwards vr ct w i) = insert (i, alt_at vr i) (set (look_forwards vr ct w (Suc i)))"
        using inb False by (subst look_forwards.simps) simp
      also have "\<dots> = insert (i, alt_at vr i)
          {(j, alt_at vr j) | j. Suc i \<le> j \<and> j < length vr \<and> time_at vr j - ct \<le> w}"
        using "1.IH" [OF inb False "1.prems"] by simp
      also have "\<dots> = {(j, alt_at vr j) | j. i \<le> j \<and> j < length vr \<and> time_at vr j - ct \<le> w}"
        using inb False by (auto simp: Suc_le_eq le_less)
      finally show ?thesis .
    qed
  qed
qed

lemma set_findRecordsInTimeWindow:
  assumes "sorted (map elapsedTime vr)" and "i < length vr"
  shows "set (findRecordsInTimeWindow vr i w) =
    {(j, alt_at vr j) | j. j < length vr \<and> j \<noteq> i \<and> \<bar>time_at vr j - time_at vr i\<bar> \<le> w}"
proof -
  have bk: "(j < i \<and> time_at vr i - time_at vr j \<le> w) \<longleftrightarrow>
      (j < i \<and> \<bar>time_at vr j - time_at vr i\<bar> \<le> w)" for j
    using time_at_mono [OF assms(1), of j i] assms(2) by (cases "j < i") auto
  have fw: "(Suc i \<le> j \<and> j < length vr \<and> time_at vr j - time_at vr i \<le> w) \<longleftrightarrow>
      (i < j \<and> j < length vr \<and> \<bar>time_at vr j - time_at vr i\<bar> \<le> w)" for j
    using time_at_mono [OF assms(1), of i j] by (cases "i < j \<and> j < length vr") auto
  have "set (findRecordsInTimeWindow vr i w) =
      {(j, alt_at vr j) | j. j < i \<and> \<bar>time_at vr j - time_at vr i\<bar> \<le> w}
      \<union> {(j, alt_at vr j) | j. i < j \<and> j < length vr \<and> \<bar>time_at vr j - time_at vr i\<bar> \<le> w}"
    using assms(2)
    by (simp add: findRecordsInTimeWindow_def Let_def set_look_backwards [OF assms(1)]
        set_look_forwards [OF assms(1)] bk fw)
  also have "\<dots> = {(j, alt_at vr j) | j. j < length vr \<and> j \<noteq> i \<and> \<bar>time_at vr j - time_at vr i\<bar> \<le> w}"
    using assms(2) by (auto simp: nat_neq_iff)
  finally show ?thesis .
qed

text \<open>
  C5. On a time-ordered series, the neighbours that \<open>findRecordsInTimeWindow\<close> gathers
  around index \<open>i\<close> of the valid subset, backwards and forwards until the 60-second bound
  is passed, are exactly the other samples whose time differs from that of \<open>i\<close> by at
  most 60 seconds. Index \<open>i\<close> passes the local-maximum test if and only if its altitude
  is greater than or equal to the altitude of each of them; ties pass, so a sample whose
  neighbours all have its own altitude passes.
\<close>

theorem isLocalMax_iff_highest_in_window:
  fixes records :: "TrackRecord list"
  defines "vr \<equiv> validRecords records"
  assumes "timeOrdered records" and "i < length vr"
  shows "set (findRecordsInTimeWindow vr i 60) =
           {(j, alt_at vr j) | j.
              j < length vr \<and> j \<noteq> i \<and> \<bar>time_at vr j - time_at vr i\<bar> \<le> 60}
         \<and> (isLocalMax vr i \<longleftrightarrow>
              (\<forall>j<length vr. j \<noteq> i \<and> \<bar>time_at vr j - time_at vr i\<bar> \<le> 60
                 \<longrightarrow> alt_at vr j \<le> alt_at vr i))
         \<and> ((\<forall>j<length vr. \<bar>time_at vr j - time_at vr i\<bar> \<le> 60
                 \<longrightarrow> alt_at vr j = alt_at vr i) \<longrightarrow> isLocalMax vr i)"
proof -
  have srt: "sorted (map elapsedTime vr)"
    unfolding vr_def using assms(2) by (rule sorted_validRecords)
  note nb = set_findRecordsInTimeWindow [OF srt assms(3)]
  have iff: "isLocalMax vr i \<longleftrightarrow>
      (\<forall>j<length vr. j \<noteq> i \<and> \<bar>time_at vr j - time_at vr i\<bar> \<le> 60
         \<longrightarrow> alt_at vr j \<le> alt_at vr i)"
    unfolding isLocalMax_def list_all_iff peakWindowSeconds_def
    by (simp add: nb) blast
  have ties: "isLocalMax vr i"
    if "\<forall>j<length vr. \<bar>time_at vr j - time_at vr i\<bar> \<le> 60 \<longrightarrow> alt_at vr j = alt_at vr i"
    using that unfolding iff by simp
  from nb iff ties show ?thesis by blast
qed

theorem isLocalMax_iff_highest_in_window_witness:
  "timeOrdered hill \<and> 8 < length (validRecords hill)
   \<and> isLocalMax (validRecords hill) 8
   \<and> alt_at (validRecords hill) 9 \<le> alt_at (validRecords hill) 8"
proof -
  have ord: "timeOrdered hill"
    by (rule timeOrdered_hill)
  have inb: "8 < length (validRecords hill)"
    by (simp add: validRecords_hill length_hill)
  have top: "isLocalMax (validRecords hill) 8"
    by code_simp
  have near: "9 < length (validRecords hill) \<and> (9::nat) \<noteq> 8
      \<and> \<bar>time_at (validRecords hill) 9 - time_at (validRecords hill) 8\<bar> \<le> 60"
    by code_simp
  from isLocalMax_iff_highest_in_window [OF ord inb] top near
  have "alt_at (validRecords hill) 9 \<le> alt_at (validRecords hill) 8"
    by blast
  with ord inb top show ?thesis
    by blast
qed

section \<open>The peak scan\<close>

lemma finite_afterWithin: "finite (afterWithin vr ct w j)"
proof -
  have "afterWithin vr ct w j \<subseteq> alt_at vr ` {..<length vr}"
    by (auto simp: afterWithin_def)
  then show ?thesis by (rule finite_subset) simp
qed

lemma afterWithin_beyond: "length vr \<le> j \<Longrightarrow> afterWithin vr ct w j = {}"
  by (auto simp: afterWithin_def)

lemma afterWithin_stop:
  assumes "sorted (map elapsedTime vr)" and "j < length vr" and "time_at vr j - ct > w"
  shows "afterWithin vr ct w j = {}"
proof -
  have "time_at vr k - ct > w" if "j \<le> k" "k < length vr" for k
    using time_at_mono [OF assms(1) that] assms(3) by linarith
  then show ?thesis by (auto simp: afterWithin_def not_le [symmetric])
qed

lemma afterWithin_step:
  assumes "j < length vr" and "\<not> time_at vr j - ct > w"
  shows "afterWithin vr ct w j = insert (alt_at vr j) (afterWithin vr ct w (Suc j))"
  using assms by (auto simp: afterWithin_def Suc_le_eq le_less)

lemma minAfterLoop_least:
  "sorted (map elapsedTime vr) \<Longrightarrow>
   minAfterLoop vr ct w m j \<in> insert m (afterWithin vr ct w j)
   \<and> (\<forall>x \<in> insert m (afterWithin vr ct w j). minAfterLoop vr ct w m j \<le> x)"
proof (induction vr ct w m j rule: minAfterLoop.induct)
  case (1 vr ct w m j)
  show ?case
  proof (cases "j < length vr")
    case False
    then show ?thesis
      by (subst (1 2) minAfterLoop.simps) (simp add: afterWithin_beyond)
  next
    case inb: True
    show ?thesis
    proof (cases "time_at vr j - ct > w")
      case True
      with inb show ?thesis
        by (subst (1 2) minAfterLoop.simps) (simp add: afterWithin_stop [OF "1.prems"])
    next
      case False
      let ?m' = "if alt_at vr j < m then alt_at vr j else m"
      have eq: "minAfterLoop vr ct w m j = minAfterLoop vr ct w ?m' (Suc j)"
        using inb False by (subst minAfterLoop.simps) simp
      from "1.IH" [OF inb False "1.prems"] show ?thesis
        unfolding eq afterWithin_step [OF inb False] by (auto split: if_splits)
    qed
  qed
qed

lemma minAfterLoop_Min:
  assumes "sorted (map elapsedTime vr)"
  shows "minAfterLoop vr ct w m j = Min (insert m (afterWithin vr ct w j))"
proof -
  from minAfterLoop_least [OF assms, of ct w m j]
  show ?thesis
    by (intro Min_eqI [symmetric]) (auto simp: finite_afterWithin)
qed

lemma altitudesWithin_split:
  assumes "i < length vr"
  shows "altitudesWithin vr i w = (if 0 \<le> w then insert (alt_at vr i) (afterWithin vr (time_at vr i) w (Suc i)) else afterWithin vr (time_at vr i) w (Suc i))"
  using assms by (auto simp: altitudesWithin_def afterWithin_def Suc_le_eq le_less)

lemma prominence_Min:
  assumes "sorted (map elapsedTime vr)" and "i < length vr"
  shows "prominence vr i = alt_at vr i - Min (altitudesWithin vr i 300)"
  using assms(2)
  by (simp add: prominence_def prominenceWindowSeconds_def minAfterLoop_Min [OF assms(1)]
      altitudesWithin_split)

lemma peakStep_cases:
  "peakStep vr i peaks = peaks
   \<or> (peakStep vr i peaks = peaks @ [i] \<and> isLocalMax vr i \<and> 15 \<le> prominence vr i
       \<and> (peaks = [] \<or> 120 \<le> time_at vr i - time_at vr (last peaks)))"
  by (auto simp: peakStep_def minProminence_def minTimeBetweenPeaks_def)

lemma fold_peakStep_inv:
  "(\<forall>p \<in> set (fold (peakStep vr) [0..<k] []). p < k \<and> isLocalMax vr p \<and> 15 \<le> prominence vr p)
   \<and> successively (\<lambda>a b. 120 \<le> time_at vr b - time_at vr a) (fold (peakStep vr) [0..<k] [])"
proof (induction k)
  case 0
  then show ?case by simp
next
  case (Suc k)
  let ?ps = "fold (peakStep vr) [0..<k] []"
  have eq: "fold (peakStep vr) [0..<Suc k] [] = peakStep vr k ?ps"
    by simp
  from peakStep_cases [of vr k ?ps] Suc.IH show ?case
    unfolding eq by (auto simp: successively_append_iff less_Suc_eq)
qed

lemma detectPeaks_accepted:
  "p \<in> set (detectPeaks vr) \<Longrightarrow> p < length vr \<and> isLocalMax vr p \<and> 15 \<le> prominence vr p"
  using fold_peakStep_inv [of vr "length vr"] by (simp add: detectPeaks_def)

lemma detectPeaks_successively:
  "successively (\<lambda>a b. 120 \<le> time_at vr b - time_at vr a) (detectPeaks vr)"
  using fold_peakStep_inv [of vr "length vr"] by (simp add: detectPeaks_def)

lemma detectPeaks_spaced:
  "sorted_wrt (\<lambda>a b. 120 \<le> time_at vr b - time_at vr a) (detectPeaks vr)"
proof -
  have "transp (\<lambda>a b. 120 \<le> time_at vr b - time_at vr a)"
    by (rule transpI) linarith
  then show ?thesis
    using detectPeaks_successively [of vr] by (simp add: successively_conv_sorted_wrt)
qed

lemma peak_elapsedTime_hillPeakOf: "peak_elapsedTime (hillPeakOf vr p) = time_at vr p"
  by (simp add: hillPeakOf_def Let_def time_at_def)

lemma hillPeaks_spaced:
  "sorted_wrt (\<lambda>p q. 120 \<le> peak_elapsedTime q - peak_elapsedTime p) (hillPeaks records)"
proof (cases "length (validRecords records) < 20")
  case True
  then show ?thesis by (simp add: hillPeaks_def)
next
  case False
  let ?vr = "validRecords records"
  have "sorted_wrt (\<lambda>p q. 120 \<le> peak_elapsedTime q - peak_elapsedTime p) (hillPeakData ?vr)"
    unfolding hillPeakData_def sorted_wrt_map peak_elapsedTime_hillPeakOf
    by (rule detectPeaks_spaced)
  then show ?thesis
    using False by (simp add: hillPeaks_def sorted_wrt_filter)
qed

text \<open>
  C1. For a time-ordered input, the indices accepted by the peak scan have strictly
  increasing times, any two consecutive ones lie at least 120 seconds apart, and every
  accepted index is a sample of the valid subset whose prominence, its altitude minus
  the lowest altitude among the samples from it on within the following 300 seconds, is
  at least 15. The list returned in the end, which keeps some of the accepted peaks, is
  strictly increasing in time with consecutive entries at least 120 seconds apart as
  well.
\<close>

theorem detectPeaks_increasing_spaced_prominent:
  fixes records :: "TrackRecord list"
  defines "vr \<equiv> validRecords records"
  assumes "timeOrdered records"
  shows "sorted_wrt (<) (map (time_at vr) (detectPeaks vr))
         \<and> successively (\<lambda>a b. 120 \<le> time_at vr b - time_at vr a) (detectPeaks vr)
         \<and> (\<forall>p \<in> set (detectPeaks vr).
               p < length vr
               \<and> prominence vr p = alt_at vr p - Min (altitudesWithin vr p 300)
               \<and> 15 \<le> alt_at vr p - Min (altitudesWithin vr p 300))
         \<and> sorted_wrt (<) (map peak_elapsedTime (hillPeaks records))
         \<and> successively (\<lambda>p q. 120 \<le> peak_elapsedTime q - peak_elapsedTime p)
               (hillPeaks records)"
proof -
  have srt: "sorted (map elapsedTime vr)"
    unfolding vr_def using assms(2) by (rule sorted_validRecords)
  have incr: "sorted_wrt (<) (map (time_at vr) (detectPeaks vr))"
    unfolding sorted_wrt_map
    by (rule sorted_wrt_mono_rel [OF _ detectPeaks_spaced]) linarith
  have prom: "p < length vr
      \<and> prominence vr p = alt_at vr p - Min (altitudesWithin vr p 300)
      \<and> 15 \<le> alt_at vr p - Min (altitudesWithin vr p 300)"
    if "p \<in> set (detectPeaks vr)" for p
    using detectPeaks_accepted [OF that] prominence_Min [OF srt, of p] by simp
  have out_incr: "sorted_wrt (<) (map peak_elapsedTime (hillPeaks records))"
    unfolding sorted_wrt_map
    by (rule sorted_wrt_mono_rel [OF _ hillPeaks_spaced]) linarith
  have out_spaced: "successively (\<lambda>p q. 120 \<le> peak_elapsedTime q - peak_elapsedTime p)
      (hillPeaks records)"
    by (rule successively_if_sorted_wrt [OF hillPeaks_spaced])
  from incr detectPeaks_successively [of vr] prom out_incr out_spaced show ?thesis
    by blast
qed

lemma detectPeaks_hill: "detectPeaks (validRecords hill) = [8, 22]"
  by code_simp

theorem detectPeaks_increasing_spaced_prominent_witness:
  "timeOrdered hill
   \<and> detectPeaks (validRecords hill) = [8, 22]
   \<and> time_at (validRecords hill) 8 < time_at (validRecords hill) 22
   \<and> 120 \<le> time_at (validRecords hill) 22 - time_at (validRecords hill) 8
   \<and> 15 \<le> alt_at (validRecords hill) 8 - Min (altitudesWithin (validRecords hill) 8 300)"
  using detectPeaks_increasing_spaced_prominent [OF timeOrdered_hill]
  by (simp add: timeOrdered_hill detectPeaks_hill)

section \<open>Heart-rate recovery\<close>

lemma closestLoop_end: "length vr \<le> i \<Longrightarrow> closestLoop vr target st i = st"
  by (subst closestLoop.simps) simp

lemma closestLoop_take:
  assumes "i < length vr"
    and "st = None \<or> (\<exists>c cd. st = Some (c, cd) \<and> \<bar>time_at vr i - target\<bar> < cd)"
  shows "closestLoop vr target st i
         = closestLoop vr target (Some (vr ! i, \<bar>time_at vr i - target\<bar>)) (Suc i)"
  using assms by (subst closestLoop.simps) (auto simp: Let_def time_at_def)

lemma closestLoop_break:
  assumes "i < length vr" and "st = Some (c, cd)" and "\<not> \<bar>time_at vr i - target\<bar> < cd"
    and "target < time_at vr i \<and> cd < \<bar>time_at vr i - target\<bar>"
  shows "closestLoop vr target st i = st"
  using assms by (subst closestLoop.simps) (auto simp: Let_def time_at_def)

lemma closestLoop_skip:
  assumes "i < length vr" and "st = Some (c, cd)" and "\<not> \<bar>time_at vr i - target\<bar> < cd"
    and "\<not> (target < time_at vr i \<and> cd < \<bar>time_at vr i - target\<bar>)"
  shows "closestLoop vr target st i = closestLoop vr target st (Suc i)"
  using assms by (subst closestLoop.simps) (auto simp: Let_def time_at_def)

text \<open>Without any ordering: a result is the incoming state or a sample from \<open>i\<close> on.\<close>

lemma closestLoop_result:
  "closestLoop vr target st i = Some (c, cd) \<Longrightarrow>
   st = Some (c, cd)
   \<or> (\<exists>j. i \<le> j \<and> j < length vr \<and> c = vr ! j \<and> cd = \<bar>time_at vr j - target\<bar>)"
proof (induction "length vr - i" arbitrary: st i)
  case 0
  then show ?case by (simp add: closestLoop_end)
next
  case (Suc n)
  then have inb: "i < length vr" and n: "n = length vr - Suc i"
    by auto
  show ?case
  proof (cases "st = None \<or> (\<exists>c' cd'. st = Some (c', cd') \<and> \<bar>time_at vr i - target\<bar> < cd')")
    case True
    from Suc.prems have "closestLoop vr target (Some (vr ! i, \<bar>time_at vr i - target\<bar>)) (Suc i) = Some (c, cd)"
      by (simp add: closestLoop_take [OF inb True])
    from Suc.hyps(1) [OF n this] inb show ?thesis
      by (auto simp: Suc_le_eq intro: less_imp_le)
  next
    case False
    then obtain c' cd' where st: "st = Some (c', cd')" and ge: "\<not> \<bar>time_at vr i - target\<bar> < cd'"
      by (cases st) auto
    show ?thesis
    proof (cases "target < time_at vr i \<and> cd' < \<bar>time_at vr i - target\<bar>")
      case True
      from Suc.prems show ?thesis
        by (simp add: closestLoop_break [OF inb st ge True])
    next
      case False
      from Suc.prems have "closestLoop vr target st (Suc i) = Some (c, cd)"
        by (simp add: closestLoop_skip [OF inb st ge False])
      from Suc.hyps(1) [OF n this] show ?thesis
        by (auto simp: Suc_le_eq intro: less_imp_le)
    qed
  qed
qed

lemma closestLoop_first_closest:
  assumes srt: "sorted (map elapsedTime vr)"
  shows "(closestLoop vr target st i = st
          \<and> (\<forall>k. i \<le> k \<and> k < length vr \<longrightarrow>
                (\<exists>c cd. st = Some (c, cd) \<and> cd \<le> \<bar>time_at vr k - target\<bar>)))
         \<or> (\<exists>j. closestFrom vr i target j
                \<and> closestLoop vr target st i = Some (vr ! j, \<bar>time_at vr j - target\<bar>)
                \<and> (\<forall>c cd. st = Some (c, cd) \<longrightarrow> \<bar>time_at vr j - target\<bar> < cd))"
    (is "?keeps st i \<or> ?takes st i")
proof (induction "length vr - i" arbitrary: st i)
  case 0
  then have "length vr \<le> i" by simp
  then have "closestLoop vr target st i = st"
    and "\<forall>k. i \<le> k \<and> k < length vr \<longrightarrow>
           (\<exists>c cd. st = Some (c, cd) \<and> cd \<le> \<bar>time_at vr k - target\<bar>)"
    by (auto simp: closestLoop_end)
  then show ?case by (intro disjI1 conjI)
next
  case (Suc n)
  then have inb: "i < length vr" and n: "n = length vr - Suc i"
    by auto
  let ?d = "\<lambda>k. \<bar>time_at vr k - target\<bar>"
  show ?case
  proof (cases "st = None \<or> (\<exists>c' cd'. st = Some (c', cd') \<and> ?d i < cd')")
    case upd: True
    let ?st' = "Some (vr ! i, ?d i)"
    have eq: "closestLoop vr target st i = closestLoop vr target ?st' (Suc i)"
      by (rule closestLoop_take [OF inb upd])
    from Suc.hyps(1) [OF n, of ?st'] have "?keeps ?st' (Suc i) \<or> ?takes ?st' (Suc i)" .
    then show ?thesis
    proof
      assume k: "?keeps ?st' (Suc i)"
      then have later: "?d i \<le> ?d k" if "Suc i \<le> k" "k < length vr" for k
        using that by auto
      have "?d i \<le> ?d k" if "i \<le> k" "k < length vr" for k
        using later [of k] that by (cases "k = i") auto
      then have "closestFrom vr i target i"
        using inb by (auto simp: closestFrom_def)
      moreover have "closestLoop vr target st i = Some (vr ! i, ?d i)"
        using k eq by simp
      moreover have "\<forall>c cd. st = Some (c, cd) \<longrightarrow> ?d i < cd"
        using upd by auto
      ultimately show ?thesis by blast
    next
      assume "?takes ?st' (Suc i)"
      then obtain j where j: "closestFrom vr (Suc i) target j"
        and res: "closestLoop vr target ?st' (Suc i) = Some (vr ! j, ?d j)"
        and lt: "?d j < ?d i"
        by auto
      have "closestFrom vr i target j"
        using j lt unfolding closestFrom_def
        by (metis Suc_leD le_less Suc_le_eq less_imp_le)
      moreover have "\<forall>c cd. st = Some (c, cd) \<longrightarrow> ?d j < cd"
        using upd lt by auto
      ultimately show ?thesis using res eq by auto
    qed
  next
    case False
    then obtain c' cd' where st: "st = Some (c', cd')" and ge: "\<not> ?d i < cd'"
      by (cases st) auto
    show ?thesis
    proof (cases "target < time_at vr i \<and> cd' < ?d i")
      case brk: True
      have "cd' \<le> ?d k" if "i \<le> k" "k < length vr" for k
        using time_at_mono [OF srt that] brk by linarith
      with st closestLoop_break [OF inb st ge brk] show ?thesis by auto
    next
      case cont: False
      have eq: "closestLoop vr target st i = closestLoop vr target st (Suc i)"
        by (rule closestLoop_skip [OF inb st ge cont])
      from Suc.hyps(1) [OF n, of st] have "?keeps st (Suc i) \<or> ?takes st (Suc i)" .
      then show ?thesis
      proof
        assume k: "?keeps st (Suc i)"
        have "cd' \<le> ?d k" if "i \<le> k" "k < length vr" for k
        proof (cases "k = i")
          case True
          with ge show ?thesis by simp
        next
          case False
          with that k st show ?thesis by (auto simp: Suc_le_eq)
        qed
        with k eq st show ?thesis by auto
      next
        assume "?takes st (Suc i)"
        then obtain j where j: "closestFrom vr (Suc i) target j"
          and res: "closestLoop vr target st (Suc i) = Some (vr ! j, ?d j)"
          and lt: "?d j < cd'"
          using st by auto
        from lt ge have lti: "?d j < ?d i" by linarith
        have "closestFrom vr i target j"
          using j lti unfolding closestFrom_def
          by (metis Suc_leD le_less Suc_le_eq less_imp_le)
        with res eq lt st show ?thesis by auto
      qed
    qed
  qed
qed

lemma closestLoop_from_peak:
  assumes "sorted (map elapsedTime vr)" and "p < length vr"
  shows "\<exists>j. closestFrom vr p target j
             \<and> closestLoop vr target None p = Some (vr ! j, \<bar>time_at vr j - target\<bar>)"
  using closestLoop_first_closest [OF assms(1), of target None p] assms(2)
  by (auto simp: closestFrom_def)

lemma findHRAtOffset_closest:
  assumes "sorted (map elapsedTime vr)" and "p < length vr"
  shows "\<exists>j. closestFrom vr p (time_at vr p + offset) j
             \<and> findHRAtOffset vr p offset
                 = (if \<bar>time_at vr j - (time_at vr p + offset)\<bar> \<le> 15
                    then heartRate (vr ! j) else None)"
proof -
  from closestLoop_from_peak [OF assms, of "time_at vr p + offset"]
  obtain j where j: "closestFrom vr p (time_at vr p + offset) j"
    and res: "closestLoop vr (time_at vr p + offset) None p
                = Some (vr ! j, \<bar>time_at vr j - (time_at vr p + offset)\<bar>)"
    by blast
  have "findHRAtOffset vr p offset
          = (if \<bar>time_at vr j - (time_at vr p + offset)\<bar> \<le> 15
             then heartRate (vr ! j) else None)"
    by (simp add: findHRAtOffset_def res)
  with j show ?thesis by blast
qed

lemma validRecords_heartRate:
  "j < length (validRecords records) \<Longrightarrow> heartRate (validRecords records ! j) \<noteq> None"
  using nth_mem [of j "validRecords records"] by (simp add: validRecords_def)

lemma recovery_fields:
  "recovery1min (hillPeakOf vr p)
     = map_option (\<lambda>h. the (heartRate (vr ! p)) - h) (findHRAtOffset vr p 60)"
  "recovery2min (hillPeakOf vr p)
     = map_option (\<lambda>h. the (heartRate (vr ! p)) - h) (findHRAtOffset vr p 120)"
  "recovery5min (hillPeakOf vr p)
     = map_option (\<lambda>h. the (heartRate (vr ! p)) - h) (findHRAtOffset vr p 300)"
  by (simp_all add: hillPeakOf_def Let_def split: option.splits)

lemma hasRecovery_hillPeakOf:
  "hasRecovery (hillPeakOf vr p) \<longleftrightarrow>
     (\<exists>offset \<in> {60, 120, 300}. findHRAtOffset vr p offset \<noteq> None)"
  by (simp add: hasRecovery_def recovery_fields)

lemma peak_index_hillPeakOf: "peak_index (hillPeakOf vr p) = p"
  by (simp add: hillPeakOf_def Let_def)

lemma recovery_hill:
  "recovery1min (hillPeakOf (validRecords hill) 8) = Some 20"
  "recovery5min (hillPeakOf (validRecords hill) 8) = Some 60"
  "recovery1min (hillPeakOf (validRecords hill) 22) = None"
  by code_simp+

lemma findHRAtOffset_hill:
  "findHRAtOffset (validRecords hill) 8 60 = Some 160"
  "findHRAtOffset (validRecords hill) 22 60 = None"
  "findHRAtOffset (validRecords hill) 22 120 = None"
  "findHRAtOffset (validRecords hill) 22 300 = None"
  by code_simp+

lemma hillPeaks_hill: "map peak_index (hillPeaks hill) = [8]"
  by code_simp

text \<open>
  C2. For an accepted peak \<open>p\<close> of a time-ordered series and each of the offsets 60, 120
  and 300 seconds, let \<open>j\<close> be the first sample from the peak's index on whose time is
  closest to the peak time plus the offset. If that time is within 15 seconds of the
  target, the recovery value of the offset is the peak heart rate minus the heart rate of
  sample \<open>j\<close>, by plain subtraction; otherwise it is \<open>None\<close>, the "no data" marker, and
  not zero.
\<close>

theorem recovery_is_peak_minus_closest:
  fixes records :: "TrackRecord list"
  defines "vr \<equiv> validRecords records"
  assumes "timeOrdered records" and "p \<in> set (detectPeaks vr)"
    and "(offset, recovery) \<in> {(60, recovery1min), (120, recovery2min), (300, recovery5min)}"
  shows "\<exists>j. closestFrom vr p (time_at vr p + offset) j
             \<and> heartRate (vr ! j) \<noteq> None
             \<and> recovery (hillPeakOf vr p)
                 = (if \<bar>time_at vr j - (time_at vr p + offset)\<bar> \<le> 15
                    then Some (the (heartRate (vr ! p)) - the (heartRate (vr ! j)))
                    else None)"
proof -
  have srt: "sorted (map elapsedTime vr)"
    unfolding vr_def using assms(2) by (rule sorted_validRecords)
  have inb: "p < length vr"
    using detectPeaks_accepted [OF assms(3)] by simp
  from findHRAtOffset_closest [OF srt inb, of offset]
  obtain j where j: "closestFrom vr p (time_at vr p + offset) j"
    and f: "findHRAtOffset vr p offset
              = (if \<bar>time_at vr j - (time_at vr p + offset)\<bar> \<le> 15
                 then heartRate (vr ! j) else None)"
    by blast
  from j have "j < length vr"
    by (simp add: closestFrom_def)
  then have hr: "heartRate (vr ! j) \<noteq> None"
    unfolding vr_def by (rule validRecords_heartRate)
  have "recovery (hillPeakOf vr p)
          = map_option (\<lambda>h. the (heartRate (vr ! p)) - h) (findHRAtOffset vr p offset)"
    using assms(4) by (auto simp: recovery_fields)
  also have "\<dots> = (if \<bar>time_at vr j - (time_at vr p + offset)\<bar> \<le> 15
                    then Some (the (heartRate (vr ! p)) - the (heartRate (vr ! j)))
                    else None)"
    using hr by (auto simp: f)
  finally show ?thesis
    using j hr by blast
qed

theorem recovery_is_peak_minus_closest_witness:
  "timeOrdered hill
   \<and> 8 \<in> set (detectPeaks (validRecords hill))
   \<and> recovery1min (hillPeakOf (validRecords hill) 8) = Some 20
   \<and> (\<exists>j. 8 \<le> j \<and> j < length (validRecords hill)
          \<and> heartRate (validRecords hill ! j) \<noteq> None
          \<and> (if \<bar>time_at (validRecords hill) j - (time_at (validRecords hill) 8 + 60)\<bar> \<le> 15
              then Some (the (heartRate (validRecords hill ! 8))
                         - the (heartRate (validRecords hill ! j)))
              else None) = Some 20)"
proof -
  have mem: "8 \<in> set (detectPeaks (validRecords hill))"
    by (simp add: detectPeaks_hill)
  have sel: "(60 :: real, recovery1min :: HillPeak \<Rightarrow> real option)
      \<in> {(60, recovery1min), (120, recovery2min), (300, recovery5min)}"
    by simp
  from recovery_is_peak_minus_closest [OF timeOrdered_hill mem sel] recovery_hill(1)
  have "\<exists>j. 8 \<le> j \<and> j < length (validRecords hill)
          \<and> heartRate (validRecords hill ! j) \<noteq> None
          \<and> (if \<bar>time_at (validRecords hill) j - (time_at (validRecords hill) 8 + 60)\<bar> \<le> 15
              then Some (the (heartRate (validRecords hill ! 8))
                         - the (heartRate (validRecords hill ! j)))
              else None) = Some 20"
    unfolding closestFrom_def by metis
  with timeOrdered_hill mem recovery_hill(1) show ?thesis
    by blast
qed

text \<open>
  C3. The result lists, in order, the records of exactly those accepted peaks for which
  one of the offsets 60, 120 and 300 found a heart rate, and it is empty when the valid
  subset has fewer than 20 samples and the scan does not run. So, whenever the scan runs,
  the record of an accepted peak is in the result if and only if at least one offset
  matched, and a peak whose three recovery values are all \<open>None\<close> is not in the result.
\<close>

theorem emitted_iff_some_offset_matched:
  fixes records :: "TrackRecord list"
  defines "vr \<equiv> validRecords records"
  defines "matched \<equiv> \<lambda>p. \<exists>offset \<in> {60, 120, 300}. findHRAtOffset vr p offset \<noteq> None"
  shows "hillPeaks records
           = (if length vr < 20 then []
              else map (hillPeakOf vr) (filter matched (detectPeaks vr)))
         \<and> (20 \<le> length vr \<longrightarrow>
               (\<forall>p \<in> set (detectPeaks vr).
                  (hillPeakOf vr p \<in> set (hillPeaks records) \<longleftrightarrow> matched p)
                  \<and> (recovery1min (hillPeakOf vr p) = None
                       \<and> recovery2min (hillPeakOf vr p) = None
                       \<and> recovery5min (hillPeakOf vr p) = None
                     \<longrightarrow> hillPeakOf vr p \<notin> set (hillPeaks records))))"
proof -
  have m: "hasRecovery (hillPeakOf vr p) \<longleftrightarrow> matched p" for p
    unfolding matched_def by (rule hasRecovery_hillPeakOf)
  have out: "hillPeaks records
      = (if length vr < 20 then []
         else map (hillPeakOf vr) (filter matched (detectPeaks vr)))"
    by (simp add: hillPeaks_def hillPeakData_def vr_def [symmetric] Let_def filter_map
        comp_def m)
  have mem: "hillPeakOf vr p \<in> set (hillPeaks records) \<longleftrightarrow> matched p"
    if big: "20 \<le> length vr" and acc: "p \<in> set (detectPeaks vr)" for p
  proof
    assume "hillPeakOf vr p \<in> set (hillPeaks records)"
    then obtain q where q: "matched q" and same: "hillPeakOf vr p = hillPeakOf vr q"
      using big by (auto simp: out)
    from same have "peak_index (hillPeakOf vr p) = peak_index (hillPeakOf vr q)"
      by (rule arg_cong)
    then have "p = q"
      by (simp only: peak_index_hillPeakOf)
    with q show "matched p"
      by simp
  next
    assume "matched p"
    then show "hillPeakOf vr p \<in> set (hillPeaks records)"
      using big acc by (simp add: out)
  qed
  have dropped: "hillPeakOf vr p \<notin> set (hillPeaks records)"
    if "20 \<le> length vr" "p \<in> set (detectPeaks vr)"
      and "recovery1min (hillPeakOf vr p) = None \<and> recovery2min (hillPeakOf vr p) = None
           \<and> recovery5min (hillPeakOf vr p) = None" for p
  proof -
    have "\<not> hasRecovery (hillPeakOf vr p)"
      using that(3) by (simp add: hasRecovery_def)
    then show ?thesis
      using mem [OF that(1,2)] m by simp
  qed
  from out mem dropped show ?thesis
    by blast
qed

theorem emitted_iff_some_offset_matched_witness:
  "20 \<le> length (validRecords hill)
   \<and> detectPeaks (validRecords hill) = [8, 22]
   \<and> map peak_index (hillPeaks hill) = [8]
   \<and> hillPeakOf (validRecords hill) 8 \<in> set (hillPeaks hill)
   \<and> hillPeakOf (validRecords hill) 22 \<notin> set (hillPeaks hill)"
proof -
  have len: "20 \<le> length (validRecords hill)"
    by (simp add: validRecords_hill length_hill)
  note iff = emitted_iff_some_offset_matched [of hill, THEN conjunct2, rule_format, OF len]
  have "hillPeakOf (validRecords hill) 8 \<in> set (hillPeaks hill)"
    using iff [of 8] findHRAtOffset_hill(1) by (simp add: detectPeaks_hill)
  moreover have "hillPeakOf (validRecords hill) 22 \<notin> set (hillPeaks hill)"
    using iff [of 22] findHRAtOffset_hill(2-4) by (simp add: detectPeaks_hill)
  ultimately show ?thesis
    using len detectPeaks_hill hillPeaks_hill by blast
qed

text \<open>
  C10. When an offset of an accepted peak \<open>p\<close> is matched, the matched sample \<open>j\<close> comes
  after \<open>p\<close> in the valid subset and in time: its time is at least the peak time plus
  the offset minus 15, so at least 45 seconds after the peak, and it is not the peak
  sample.
\<close>

theorem matched_sample_after_peak:
  fixes records :: "TrackRecord list"
  defines "vr \<equiv> validRecords records"
  assumes "p \<in> set (detectPeaks vr)" and "offset \<in> {60, 120, 300}"
    and "findHRAtOffset vr p offset = Some h"
  shows "\<exists>j. p < j \<and> j < length vr
             \<and> closestLoop vr (time_at vr p + offset) None p
                 = Some (vr ! j, \<bar>time_at vr j - (time_at vr p + offset)\<bar>)
             \<and> heartRate (vr ! j) = Some h
             \<and> time_at vr p + offset - 15 \<le> time_at vr j
             \<and> time_at vr p + 45 \<le> time_at vr j
             \<and> time_at vr p < time_at vr j
             \<and> vr ! j \<noteq> vr ! p"
proof -
  from assms(4) obtain c cd
    where res: "closestLoop vr (time_at vr p + offset) None p = Some (c, cd)"
      and near: "cd \<le> 15" and hr: "heartRate c = Some h"
    by (auto simp: findHRAtOffset_def split: option.splits if_splits)
  from closestLoop_result [OF res]
  obtain j where j: "p \<le> j" "j < length vr" and c: "c = vr ! j"
    and cd: "cd = \<bar>time_at vr j - (time_at vr p + offset)\<bar>"
    by auto
  from assms(3) have off: "60 \<le> offset"
    by auto
  from near cd off have t1: "time_at vr p + offset - 15 \<le> time_at vr j"
    and t2: "time_at vr p + 45 \<le> time_at vr j" and t3: "time_at vr p < time_at vr j"
    by linarith+
  from t3 have ne: "j \<noteq> p" and rne: "vr ! j \<noteq> vr ! p"
    by (auto simp: time_at_def)
  with j have "p < j" by simp
  with j res c cd hr t1 t2 t3 rne show ?thesis
    by auto
qed

theorem matched_sample_after_peak_witness:
  "8 \<in> set (detectPeaks (validRecords hill))
   \<and> findHRAtOffset (validRecords hill) 8 60 = Some 160
   \<and> (\<exists>j. 8 < j \<and> j < length (validRecords hill)
          \<and> heartRate (validRecords hill ! j) = Some 160
          \<and> time_at (validRecords hill) 8 + 45 \<le> time_at (validRecords hill) j)"
proof -
  have mem: "8 \<in> set (detectPeaks (validRecords hill))"
    by (simp add: detectPeaks_hill)
  have off: "(60 :: real) \<in> {60, 120, 300}"
    by simp
  from matched_sample_after_peak [OF mem off findHRAtOffset_hill(1)]
  have "\<exists>j. 8 < j \<and> j < length (validRecords hill)
          \<and> heartRate (validRecords hill ! j) = Some 160
          \<and> time_at (validRecords hill) 8 + 45 \<le> time_at (validRecords hill) j"
    by blast
  with mem findHRAtOffset_hill(1) show ?thesis
    by blast
qed

section \<open>Flat traces\<close>

lemma minAfterLoop_constant:
  "(\<forall>k<length vr. alt_at vr k = a) \<Longrightarrow> minAfterLoop vr ct w a j = a"
proof (induction vr ct w a j rule: minAfterLoop.induct)
  case (1 vr ct w a j)
  show ?case
  proof (cases "j < length vr \<and> \<not> time_at vr j - ct > w")
    case True
    with "1.prems" have "minAfterLoop vr ct w a j = minAfterLoop vr ct w a (Suc j)"
      by (subst minAfterLoop.simps) simp
    with "1.IH" "1.prems" True show ?thesis by simp
  next
    case False
    then show ?thesis by (subst minAfterLoop.simps) auto
  qed
qed

lemma prominence_constant:
  "(\<forall>k<length vr. alt_at vr k = a) \<Longrightarrow> i < length vr \<Longrightarrow> prominence vr i = 0"
  by (simp add: prominence_def minAfterLoop_constant)

lemma detectPeaks_constant:
  assumes "\<forall>k<length vr. alt_at vr k = a"
  shows "detectPeaks vr = []"
proof (rule ccontr)
  assume "detectPeaks vr \<noteq> []"
  then obtain p where "p \<in> set (detectPeaks vr)"
    by (cases "detectPeaks vr") auto
  from detectPeaks_accepted [OF this] prominence_constant [OF assms, of p]
  show False by simp
qed

text \<open>
  C6. When all samples of the valid subset have one altitude, the prominence of every
  index is zero, below the threshold of 15, the peak scan accepts nothing, and the
  result is the empty list.
\<close>

theorem flat_trace_no_peaks:
  fixes records :: "TrackRecord list"
  defines "vr \<equiv> validRecords records"
  assumes "\<forall>r \<in> set vr. altitude r = Some a"
  shows "(\<forall>i<length vr. prominence vr i = 0 \<and> prominence vr i < minProminence)
         \<and> detectPeaks vr = []
         \<and> hillPeaks records = []"
proof -
  have const: "\<forall>k<length vr. alt_at vr k = a"
    using assms(2) by (simp add: alt_at_def)
  have "prominence vr i = 0 \<and> prominence vr i < minProminence" if "i < length vr" for i
    using prominence_constant [OF const that] by (simp add: minProminence_def)
  moreover have none: "detectPeaks vr = []"
    by (rule detectPeaks_constant [OF const])
  moreover have "hillPeaks records = []"
    using none by (simp add: hillPeaks_def hillPeakData_def vr_def Let_def)
  ultimately show ?thesis
    by blast
qed

lemma flat_altitudes: "list_all (\<lambda>r. altitude r = Some 250) (validRecords flat)"
  by code_simp

lemma length_flat: "length (validRecords flat) = 24"
  by code_simp

theorem flat_trace_no_peaks_witness:
  "list_all (\<lambda>r. altitude r = Some 250) (validRecords flat)
   \<and> length (validRecords flat) = 24
   \<and> prominence (validRecords flat) 10 = 0
   \<and> detectPeaks (validRecords flat) = []
   \<and> hillPeaks flat = []"
proof -
  have "\<forall>r \<in> set (validRecords flat). altitude r = Some 250"
    using flat_altitudes by (simp add: list_all_iff)
  from flat_trace_no_peaks [OF this] flat_altitudes length_flat show ?thesis
    by simp
qed

section \<open>Sparse series\<close>

text \<open>
  C4. When fewer than 20 samples of the input have both altitude and heart rate, the
  empty list included, the hill-peak computation returns the empty list, whatever the
  altitudes are. The model is a total function: there is no error to raise.
\<close>

theorem hillPeaks_sparse:
  "length (validRecords records) < 20 \<Longrightarrow> hillPeaks records = []"
  by (simp add: hillPeaks_def)

theorem hillPeaks_sparse_witness:
  "length (validRecords [sample 0 (Some 0) (Some 100), sample 1 None (Some 100),
                         sample 2 (Some 500) (Some 100)]) < 20
   \<and> hillPeaks [sample 0 (Some 0) (Some 100), sample 1 None (Some 100),
                 sample 2 (Some 500) (Some 100)] = []"
  using hillPeaks_sparse [of "[sample 0 (Some 0) (Some 100), sample 1 None (Some 100),
                               sample 2 (Some 500) (Some 100)]"]
  by (simp add: validRecords_def sample_def)

section \<open>Downsampling\<close>

lemma chartStep_bounds:
  "length points \<le> 300 * chartStep points"
  "points \<noteq> [] \<Longrightarrow> 0 < chartStep points"
  "points \<noteq> [] \<Longrightarrow> length points \<le> 300 \<Longrightarrow> chartStep points = 1"
proof -
  have "real (length points) / 300 \<le> of_int \<lceil>real (length points) / 300\<rceil>"
    by (rule le_of_int_ceiling)
  moreover have "real (chartStep points) = of_int \<lceil>real (length points) / 300\<rceil>"
    by (simp add: chartStep_def)
  ultimately have "real (length points) \<le> 300 * real (chartStep points)"
    by linarith
  then show "length points \<le> 300 * chartStep points"
    by (metis of_nat_le_iff of_nat_mult of_nat_numeral)
  show "0 < chartStep points" if "points \<noteq> []"
    using that by (simp add: chartStep_def)
  show "chartStep points = 1" if "points \<noteq> []" "length points \<le> 300"
  proof -
    have "\<lceil>real (length points) / 300\<rceil> = 1"
      using that by (intro ceiling_unique) auto
    then show ?thesis by (simp add: chartStep_def)
  qed
qed

lemma strided_count:
  fixes n s :: nat
  assumes "0 < s"
  shows "(n + s - 1) div s = (if n mod s = 0 then n div s else n div s + 1)"
proof -
  define q r where "q = n div s" and "r = n mod s"
  have n: "n = s * q + r" and r: "r < s"
    using assms by (simp_all add: q_def r_def)
  have "(n + s - 1) div s = (if r = 0 then q else q + 1)"
  proof (rule div_nat_eqI)
    show "s * (if r = 0 then q else q + 1) \<le> n + s - 1"
      using assms r by (auto simp: n)
    show "n + s - 1 < s * Suc (if r = 0 then q else q + 1)"
      using assms r by (auto simp: n)
  qed
  then show ?thesis
    by (simp add: q_def r_def)
qed

lemma filter_multiples:
  assumes "0 < s"
  shows "filter (\<lambda>i. i mod s = 0) [0..<n] = map (\<lambda>k. k * s) [0..<(n + s - 1) div s]"
proof (induction n)
  case 0
  with assms show ?case by simp
next
  case (Suc n)
  have after: "(Suc n + s - 1) div s = n div s + 1"
    using assms by simp
  show ?case
  proof (cases "n mod s = 0")
    case True
    then have n: "n div s * s = n"
      by auto
    have before: "(n + s - 1) div s = n div s"
      using strided_count [OF assms, of n] True by simp
    have "filter (\<lambda>i. i mod s = 0) [0..<Suc n] = filter (\<lambda>i. i mod s = 0) [0..<n] @ [n]"
      using True by simp
    also have "\<dots> = map (\<lambda>k. k * s) [0..<n div s] @ [n div s * s]"
      using Suc.IH [unfolded before] by (simp only: n)
    also have "\<dots> = map (\<lambda>k. k * s) [0..<n div s + 1]"
      by simp
    finally show ?thesis
      unfolding after .
  next
    case False
    have before: "(n + s - 1) div s = n div s + 1"
      using strided_count [OF assms, of n] False by simp
    have "filter (\<lambda>i. i mod s = 0) [0..<Suc n] = filter (\<lambda>i. i mod s = 0) [0..<n]"
      using False by simp
    also have "\<dots> = map (\<lambda>k. k * s) [0..<n div s + 1]"
      using Suc.IH [unfolded before] .
    finally show ?thesis
      unfolding after .
  qed
qed

lemma chartSampled_stride:
  assumes "points \<noteq> []"
  shows "chartSampled points
         = map (\<lambda>k. points ! (k * chartStep points))
             [0..<(length points + chartStep points - 1) div chartStep points]"
proof -
  have pos: "0 < chartStep points"
    by (rule chartStep_bounds(2) [OF assms])
  then have "isMultipleOf (chartStep points) = (\<lambda>i. i mod chartStep points = 0)"
    by (simp add: isMultipleOf_def fun_eq_iff)
  then show ?thesis
    by (simp add: chartSampled_def filterIndex_def filter_multiples [OF pos] comp_def)
qed

lemma length_chartSampled:
  assumes "points \<noteq> []"
  shows "length (chartSampled points) \<le> 300" and "0 < length (chartSampled points)"
proof -
  let ?s = "chartStep points" and ?n = "length points"
  have pos: "0 < ?s"
    by (rule chartStep_bounds(2) [OF assms])
  have len: "length (chartSampled points) = (?n + ?s - 1) div ?s"
    by (simp add: chartSampled_stride [OF assms])
  have "?n + ?s - 1 < ?s * Suc 300"
    using chartStep_bounds(1) [of points] pos by simp
  then have "(?n + ?s - 1) div ?s < Suc 300"
    using pos by (simp add: less_mult_imp_div_less mult.commute)
  then show "length (chartSampled points) \<le> 300"
    by (simp add: len)
  have "?s \<le> ?n + ?s - 1"
    using assms by (cases points) auto
  then have "0 < (?n + ?s - 1) div ?s"
    using pos by (simp add: div_greater_zero_iff)
  then show "0 < length (chartSampled points)"
    by (simp add: len)
qed

lemma chartSampled_first:
  assumes "points \<noteq> []"
  shows "chartSampled points ! 0 = points ! 0"
proof -
  have "0 < (length points + chartStep points - 1) div chartStep points"
    using length_chartSampled(2) [OF assms] by (simp add: chartSampled_stride [OF assms])
  then show ?thesis
    by (simp add: chartSampled_stride [OF assms])
qed

lemma chartSampled_small:
  assumes "points \<noteq> []" and "length points \<le> 300"
  shows "chartSampled points = points"
  using chartStep_bounds(3) [OF assms]
  by (simp add: chartSampled_stride [OF assms(1)] map_nth)

text \<open>
  The function \<open>downsample\<close> of the zone chart returns every record as long as there are
  fewer than twice \<open>maxPoints\<close> of them.
\<close>

lemma downsample_all:
  assumes "0 < maxPoints" and "length records < 2 * maxPoints"
  shows "downsample records maxPoints = map chartPointOf records"
proof -
  have "length records div maxPoints \<le> 1"
    using assms by (simp add: less_mult_imp_div_less Suc_leI flip: less_Suc_eq_le)
  then have "sampleRate (length records) maxPoints = 1"
    by (simp add: sampleRate_def max_def)
  then show ?thesis
    using assms(1) by (simp add: downsample_def filterIndex_def map_nth)
qed

text \<open>
  C7 on the code. The two chart components take the stride \<open>ceil(n / 300)\<close> and meet the
  claim (\<open>chartSampled_stride\<close>, \<open>length_chartSampled\<close>, \<open>chartSampled_first\<close>,
  \<open>chartSampled_small\<close>). The function \<open>downsample\<close> takes
  \<open>max(1, floor(n / maxPoints))\<close>: on 999 records with \<open>maxPoints = 500\<close> the stride is
  \<open>1\<close>, where \<open>ceil(999 / 500)\<close> is \<open>2\<close>, and all 999 records come back.
\<close>

theorem downsample_exceeds_maxPoints:
  "length longWalk = 999
   \<and> sampleRate (length longWalk) 500 = 1
   \<and> nat \<lceil>real (length longWalk) / 500\<rceil> = 2
   \<and> length (downsample longWalk 500) = 999"
proof -
  have len: "length longWalk = 999"
    by (simp add: longWalk_def)
  have "nat \<lceil>real (length longWalk) / 500\<rceil> = 2"
    unfolding len by (simp add: ceiling_divide_eq_div_numeral)
  moreover have "sampleRate (length longWalk) 500 = 1"
    unfolding len by (simp add: sampleRate_def)
  moreover have "length (downsample longWalk 500) = 999"
    by (simp add: downsample_all len)
  ultimately show ?thesis
    using len by blast
qed

section \<open>Vertical rate\<close>

lemma vam_elevationData:
  "i < length (chartSampled (elevationPoints records)) \<Longrightarrow>
   vam (elevationData units records ! i) = vamAt units (chartSampled (elevationPoints records)) i"
  by (simp add: elevationData_def Let_def elevationPointAt_def)

lemma vamAt_metric_eq:
  "vamAt metric arr i =
     (let span = elapsedTime (arr ! endIdx arr i) - elapsedTime (arr ! startIdx i);
          climb = the (altitude (arr ! endIdx arr i)) - the (altitude (arr ! startIdx i))
      in if span \<le> 3.6 then 0 else max (- 2000) (min 2000 (climb / span * 3600)))"
  by (simp add: vamAt_def Let_def elevationConversion_def vamLimit_def max_def min_def)

text \<open>
  C8. For index \<open>i\<close> of the sampled sequence of the elevation chart, in metric units:
  with \<open>lo = max(0, i - 5)\<close> and \<open>hi = min(n - 1, i + 5)\<close>, the reported rate is \<open>0\<close>
  when the time span between the two samples is at most 3.6 seconds, and otherwise the
  altitude difference divided by the time span, times 3600, clamped to the range from
  \<open>-2000\<close> to \<open>2000\<close>.
\<close>

theorem vertical_rate_metric:
  fixes records :: "TrackRecord list"
  defines "arr \<equiv> chartSampled (elevationPoints records)"
  assumes "i < length arr"
  shows "int (startIdx i) = max 0 (int i - 5)
         \<and> int (endIdx arr i) = min (int (length arr) - 1) (int i + 5)
         \<and> length (elevationData metric records) = length arr
         \<and> vam (elevationData metric records ! i)
             = (let span = elapsedTime (arr ! endIdx arr i) - elapsedTime (arr ! startIdx i);
                    climb = the (altitude (arr ! endIdx arr i))
                            - the (altitude (arr ! startIdx i))
                in if span \<le> 3.6 then 0
                   else max (- 2000) (min 2000 (climb / span * 3600)))"
proof -
  have lo: "int (startIdx i) = max 0 (int i - 5)"
    by (simp add: startIdx_def windowSize_def)
  have hi: "int (endIdx arr i) = min (int (length arr) - 1) (int i + 5)"
    using assms(2) by (auto simp: endIdx_def windowSize_def)
  have len: "length (elevationData metric records) = length arr"
    by (simp add: elevationData_def Let_def arr_def)
  have "vam (elevationData metric records ! i) = vamAt metric arr i"
    using assms(2) unfolding arr_def by (rule vam_elevationData)
  with lo hi len show ?thesis
    by (simp only: vamAt_metric_eq)
qed

lemma steady_sampled: "chartSampled (elevationPoints steady) = steady"
  by code_simp

lemma steady_values:
  "length steady = 12" "endIdx steady 6 = 11" "startIdx 6 = 1"
  "elapsedTime (steady ! 11) = 110" "elapsedTime (steady ! Suc 0) = 10"
  "altitude (steady ! 11) = Some 111" "altitude (steady ! Suc 0) = Some 101"
  by code_simp+

theorem vertical_rate_metric_witness:
  "6 < length (chartSampled (elevationPoints steady))
   \<and> int (startIdx 6) = 1
   \<and> int (endIdx (chartSampled (elevationPoints steady)) 6) = 11
   \<and> vam (elevationData metric steady ! 6) = 360"
proof -
  have inb: "6 < length (chartSampled (elevationPoints steady))"
    by (simp add: steady_sampled steady_values)
  from vertical_rate_metric [OF inb] show ?thesis
    by (simp add: steady_sampled steady_values)
qed

section \<open>Pace\<close>

lemma fold_sumStep:
  "fold (sumStep arr) js (s, c)
     = (s + sum_list (map (\<lambda>j. the (speed (arr ! j))) (filter (\<lambda>j. truthy (speed (arr ! j))) js)),
        c + length (filter (\<lambda>j. truthy (speed (arr ! j))) js))"
  by (induction js arbitrary: s c) (auto simp: sumStep_def)

lemma paceAt_cases:
  "paceAt units arr i =
     (if avgSpeed arr i \<le> 0.1 then 0
      else min 20 (paceMeters units / avgSpeed arr i / 60))"
  by (auto simp: paceAt_def Let_def min_def paceMeters_def)

text \<open>
  What the summing loop computes: the mean of the speeds of the window that JavaScript
  takes for true, which leaves out the zeros as well as the absent values.
\<close>

lemma avgSpeed_truthy_mean:
  "avgSpeed arr i =
     (let js = filter (\<lambda>j. truthy (speed (arr ! j))) [startIdx i..<endIdx arr i + 1]
      in if js = [] then 0
         else sum_list (map (\<lambda>j. the (speed (arr ! j))) js) / real (length js))"
  by (simp add: avgSpeed_def sumWindow_def fold_sumStep Let_def)

text \<open>
  C9 on the code. In the window of the series \<open>stopAndGo\<close> the speeds \<open>0\<close> and \<open>2\<close> are
  both present, and their mean is \<open>1\<close>; the estimator skips the zero and reports the
  average speed \<open>2\<close>, and from it the pace \<open>25 / 3\<close> instead of \<open>50 / 3\<close> minutes per
  kilometre.
\<close>

theorem avgSpeed_skips_zero_speed:
  "chartSampled (pacePoints stopAndGo) = stopAndGo
   \<and> presentSpeeds stopAndGo 0 = [0, 2]
   \<and> meanPresentSpeed stopAndGo 0 = 1
   \<and> avgSpeed stopAndGo 0 = 2
   \<and> rawSpeed (paceData metric stopAndGo ! 0) = 2
   \<and> pace (paceData metric stopAndGo ! 0) = 25 / 3"
  by code_simp

end
